theory Spec2Isabelle
  imports Main "HOL-Library.Char_ord" "HOL-Library.List_Lexorder"
begin

section \<open>The string merger of \<open>src/utils.js\<close>\<close>

text \<open>
  \<open>mergeStrings\<close> takes the alert summaries of one group and returns one template: the
  text common to all of them verbatim, the parts that differ as bracketed sets of
  variants. The model follows the source statement by statement. A JavaScript string is
  a \<open>string\<close> (a list of characters, one per code unit), an offset is an \<open>int\<close> (the
  source starts \<open>rangeStart\<close> at \<open>-1\<close>), a thrown exception is the \<open>Inl\<close> of a sum,
  and every \<open>for\<close> and \<open>while\<close> loop is a recursive function.
\<close>

subsection \<open>Failures\<close>

text \<open>
  \<open>EmptyInput\<close> is \<open>throw new Error(`No strings to merge!`)\<close> (line 17),
  \<open>DiffCoverageMismatch\<close> is \<open>throw new Error(`Diff didn't cover length of original
  string!`)\<close> (line 62), and \<open>TypeError\<close> is what JavaScript throws when a property
  of \<open>undefined\<close> is read, as in \<open>chars[idx].ptr\<close> with \<open>idx\<close> out of range.
\<close>

datatype error = EmptyInput | DiffCoverageMismatch | TypeError

subsection \<open>Tokenizer: \<open>segmentString\<close> (lines 3-5)\<close>

text \<open>
  The class \<open>[a-z0-9-]\<close> under the flag \<open>i\<close>: ASCII letters of both cases, digits and the
  hyphen.
\<close>

definition isWordChar :: "char \<Rightarrow> bool" where
  "isWordChar c =
     ((CHR ''a'' \<le> c \<and> c \<le> CHR ''z'') \<or> (CHR ''A'' \<le> c \<and> c \<le> CHR ''Z'') \<or>
      (CHR ''0'' \<le> c \<and> c \<le> CHR ''9'') \<or> c = CHR ''-'')"

text \<open>
  \<open>string.matchAll(/[a-z0-9-]+|[^a-z0-9-]+/gi)\<close>: at each position the first alternative
  that matches takes the longest run of its class, and the next match starts where this
  one ended.
\<close>

function segmentString :: "string \<Rightarrow> string list" where
  "segmentString [] = []"
| "segmentString (c # cs) =
     (c # takeWhile (\<lambda>d. isWordChar d = isWordChar c) cs)
       # segmentString (dropWhile (\<lambda>d. isWordChar d = isWordChar c) cs)"
  by pat_completeness auto
termination
  by (relation "measure length") (auto simp: less_Suc_eq_le length_dropWhile_le)

subsection \<open>Edit scripts: \<open>diffSegmented\<close> (lines 7-13)\<close>

text \<open>
  One element of the array returned by \<open>jsdiff.diffArrays\<close>. The field \<open>val\<close> is the
  source's \<open>value\<close>: a list of tokens as the library returns it, a string once
  \<open>diffSegmented\<close> has joined it. A flag the library leaves \<open>undefined\<close> is \<open>False\<close>.
\<close>

record 'v change =
  count :: nat
  added :: bool
  removed :: bool
  val :: 'v

type_synonym differ = "string list \<Rightarrow> string list \<Rightarrow> string list change list"

definition joinChange :: "string list change \<Rightarrow> string change" where
  "joinChange m =
     \<lparr>count = length (concat (val m)), added = added m, removed = removed m,
      val = concat (val m)\<rparr>"

text \<open>The library function is a parameter of the model: \<open>diffArrays\<close> below.\<close>

definition diffSegmented :: "differ \<Rightarrow> string \<Rightarrow> string \<Rightarrow> string change list" where
  "diffSegmented diffArrays left right =
     map joinChange (diffArrays (segmentString left) (segmentString right))"

subsection \<open>Anchor finder (lines 44-76)\<close>

text \<open>The loop over \<open>i\<close> of lines 53-58, one step per character of \<open>edit.value\<close>.\<close>

fun markChars :: "bool \<Rightarrow> string \<Rightarrow> int set \<times> int \<Rightarrow> int set \<times> int" where
  "markChars rem [] (unchanged, ptr) = (unchanged, ptr)"
| "markChars rem (c # cs) (unchanged, ptr) =
     markChars rem cs ((if \<not> rem then insert ptr unchanged else unchanged), ptr + 1)"

text \<open>The loop over the edits of one diff, lines 48-60.\<close>

fun walkEdits :: "string change list \<Rightarrow> int set \<times> int \<Rightarrow> int set \<times> int" where
  "walkEdits [] st = st"
| "walkEdits (edit # diff) st =
     walkEdits diff (if \<not> added edit then markChars (removed edit) (val edit) st else st)"

text \<open>One pass of the loop of lines 45-65, with the check of line 61.\<close>

definition unchangedSet :: "string \<Rightarrow> string change list \<Rightarrow> error + int set" where
  "unchangedSet ref diff =
     (case walkEdits diff ({}, 0) of
        (unchanged, ptr) \<Rightarrow>
          if ptr \<noteq> int (length ref) then Inl DiffCoverageMismatch else Inr unchanged)"

text \<open>The whole loop: the first diff that fails the check ends the call.\<close>

fun unchangedSetsOf :: "string \<Rightarrow> string change list list \<Rightarrow> error + int set list" where
  "unchangedSetsOf ref [] = Inr []"
| "unchangedSetsOf ref (diff # diffs) =
     (case unchangedSet ref diff of
        Inl e \<Rightarrow> Inl e
      | Inr unchanged \<Rightarrow>
          (case unchangedSetsOf ref diffs of
             Inl e \<Rightarrow> Inl e
           | Inr unchangedSets \<Rightarrow> Inr (unchanged # unchangedSets)))"

text \<open>
  Lines 73-76. With no set at all \<open>unchangedSets[0]\<close> is \<open>undefined\<close>, and the first
  \<open>unchangedCommon.has\<close> of line 85 throws.
\<close>

definition intersectAll :: "int set list \<Rightarrow> error + int set" where
  "intersectAll unchangedSets =
     (case unchangedSets of
        [] \<Rightarrow> Inl TypeError
      | first # _ \<Rightarrow> Inr (foldl (\<inter>) first unchangedSets))"

subsection \<open>Range partitioner (lines 82-119)\<close>

record range =
  start :: int
  stop :: int

text \<open>
  \<open>stop\<close> is the source's \<open>end\<close>. One iteration of the loop of lines 84-93 on the
  state \<open>(rangeActive, rangeStart, unchangedRanges)\<close>:
\<close>

fun scanStep :: "int set \<Rightarrow> bool \<times> int \<times> range list \<Rightarrow> int \<Rightarrow> bool \<times> int \<times> range list" where
  "scanStep unchangedCommon (rangeActive, rangeStart, unchangedRanges) ptr =
     (if ptr \<in> unchangedCommon \<and> \<not> rangeActive then (True, ptr, unchangedRanges)
      else if ptr \<notin> unchangedCommon \<and> rangeActive then
        (False, rangeStart, unchangedRanges @ [\<lparr>start = rangeStart, stop = ptr\<rparr>])
      else (rangeActive, rangeStart, unchangedRanges))"

definition unchangedRangesOf :: "int set \<Rightarrow> nat \<Rightarrow> range list" where
  "unchangedRangesOf unchangedCommon len =
     snd (snd (foldl (scanStep unchangedCommon) (False, - 1, []) (map int [0..<len + 1])))"

text \<open>The loop of lines 113-119 over adjacent pairs of the augmented list.\<close>

fun gaps :: "range list \<Rightarrow> range list" where
  "gaps (a # b # rest) =
     (if stop a \<noteq> start b then [\<lparr>start = stop a, stop = start b\<rparr>] else []) @ gaps (b # rest)"
| "gaps [a] = []"
| "gaps [] = []"

definition varyingRangesOf :: "range list \<Rightarrow> nat \<Rightarrow> range list" where
  "varyingRangesOf unchangedRanges len =
     gaps ([\<lparr>start = - 1, stop = 0\<rparr>] @ unchangedRanges
             @ [\<lparr>start = int len, stop = int len + 1\<rparr>])"

subsection \<open>Variant extractor (lines 125-194)\<close>

record entry =
  ptr :: int
  ch :: char
  countAdjacent :: bool

text \<open>The loop of lines 146-155 over the characters of a removed or unchanged edit.\<close>

fun keptChars :: "bool \<Rightarrow> string \<Rightarrow> entry list \<times> int \<Rightarrow> entry list \<times> int" where
  "keptChars rem [] (chars, p) = (chars, p)"
| "keptChars rem (c # cs) (chars, p) =
     keptChars rem cs
       ((if \<not> rem then chars @ [\<lparr>ptr = p, ch = c, countAdjacent = False\<rparr>] else chars), p + 1)"

text \<open>The loop of lines 129-157; an added edit pushes its characters at the cursor.\<close>

fun collectChars :: "string change list \<Rightarrow> entry list \<times> int \<Rightarrow> entry list \<times> int" where
  "collectChars [] st = st"
| "collectChars (edit # diff) (chars, p) =
     collectChars diff
       (if added edit then
          (chars @ map (\<lambda>c. \<lparr>ptr = p, ch = c, countAdjacent = True\<rparr>) (val edit), p)
        else keptChars (removed edit) (val edit) (chars, p))"

definition charsOf :: "string change list \<Rightarrow> entry list" where
  "charsOf diff = fst (collectChars diff ([], 0))"

text \<open>
  The loop of lines 167-173, \<open>while (chars[idx].ptr < range.start)\<close>. It returns the new
  \<open>idx\<close> and \<open>done\<close>; reading \<open>chars[idx]\<close> beyond the array throws.
\<close>

function skipBefore :: "entry list \<Rightarrow> int \<Rightarrow> nat \<Rightarrow> error + nat \<times> bool" where
  "skipBefore chars rstart idx =
     (if idx < length chars then
        (if ptr (chars ! idx) < rstart then
           (if idx + 1 \<ge> length chars then Inr (idx + 1, True)
            else skipBefore chars rstart (idx + 1))
         else Inr (idx, False))
      else Inl TypeError)"
  by pat_completeness auto
termination
  by (relation "measure (\<lambda>(chars, rstart, idx). length chars - idx)") auto

declare skipBefore.simps [simp del]

text \<open>The loop of lines 178-187, \<open>while (chars[idx].ptr <= range.end)\<close>.\<close>

function takeWithin :: "entry list \<Rightarrow> int \<Rightarrow> nat \<Rightarrow> string \<Rightarrow> error + nat \<times> bool \<times> string" where
  "takeWithin chars rend idx varyingPart =
     (if idx < length chars then
        (if ptr (chars ! idx) \<le> rend then
           (if idx + 1 \<ge> length chars then
              Inr (idx + 1, True,
                   (if ptr (chars ! idx) < rend \<or> countAdjacent (chars ! idx)
                    then varyingPart @ [ch (chars ! idx)] else varyingPart))
            else
              takeWithin chars rend (idx + 1)
                (if ptr (chars ! idx) < rend \<or> countAdjacent (chars ! idx)
                 then varyingPart @ [ch (chars ! idx)] else varyingPart))
         else Inr (idx, False, varyingPart))
      else Inl TypeError)"
  by pat_completeness auto
termination
  by (relation "measure (\<lambda>(chars, rend, idx, varyingPart). length chars - idx)") auto

declare takeWithin.simps [simp del]

text \<open>The loop of lines 163-192 over the varying ranges, for one diff.\<close>

fun extractParts :: "entry list \<Rightarrow> range list \<Rightarrow> nat \<Rightarrow> string list \<Rightarrow> error + string list" where
  "extractParts chars [] idx varyingParts = Inr varyingParts"
| "extractParts chars (rng # ranges) idx varyingParts =
     (if idx < length chars then
        (if ptr (chars ! idx) > stop rng then extractParts chars ranges idx varyingParts
         else
           (case skipBefore chars (start rng) idx of
              Inl e \<Rightarrow> Inl e
            | Inr (idx1, done1) \<Rightarrow>
                if done1 then Inr varyingParts
                else
                  (case takeWithin chars (stop rng) idx1 [] of
                     Inl e \<Rightarrow> Inl e
                   | Inr (idx2, done2, varyingPart) \<Rightarrow>
                       if done2 then Inr (varyingParts @ [varyingPart])
                       else extractParts chars ranges idx2 (varyingParts @ [varyingPart]))))
      else Inl TypeError)"

definition varyingPartsOf :: "range list \<Rightarrow> string change list \<Rightarrow> error + string list" where
  "varyingPartsOf varyingRanges diff = extractParts (charsOf diff) varyingRanges 0 []"

text \<open>The loop of lines 126-194 over the diffs.\<close>

fun varyingListsOf :: "range list \<Rightarrow> string change list list \<Rightarrow> error + string list list" where
  "varyingListsOf varyingRanges [] = Inr []"
| "varyingListsOf varyingRanges (diff # diffs) =
     (case varyingPartsOf varyingRanges diff of
        Inl e \<Rightarrow> Inl e
      | Inr varyingParts \<Rightarrow>
          (case varyingListsOf varyingRanges diffs of
             Inl e \<Rightarrow> Inl e
           | Inr varyingLists \<Rightarrow> Inr (varyingParts # varyingLists)))"

subsection \<open>Composer (lines 196-223)\<close>

text \<open>
  A variant is a string or \<open>undefined\<close> (\<open>None\<close>): \<open>list[varyingIdx]\<close> beyond the end of
  \<open>list\<close> is \<open>undefined\<close>, and a \<open>Set\<close> holds it like any other value.
\<close>

definition nthJS :: "'a list \<Rightarrow> nat \<Rightarrow> 'a option" where
  "nthJS xs i = (if i < length xs then Some (xs ! i) else None)"

text \<open>\<open>Set.add\<close>, the set kept as the list of its members in insertion order.\<close>

definition setAdd :: "'a list \<Rightarrow> 'a \<Rightarrow> 'a list" where
  "setAdd members x = (if x \<in> set members then members else members @ [x])"

definition variantsAt :: "string list list \<Rightarrow> nat \<Rightarrow> string option list" where
  "variantsAt varyingLists varyingIdx =
     foldl setAdd [] (map (\<lambda>list. nthJS list varyingIdx) varyingLists)"

text \<open>
  \<open>Array.prototype.sort\<close> with no comparator: the strings in the order of their code
  units, every \<open>undefined\<close> after them.
\<close>

primrec strings :: "string option list \<Rightarrow> string list" where
  "strings [] = []"
| "strings (x # xs) = (case x of None \<Rightarrow> strings xs | Some s \<Rightarrow> s # strings xs)"

definition sortJS :: "string option list \<Rightarrow> string option list" where
  "sortJS xs = map Some (sort (strings xs)) @ filter (\<lambda>x. x = None) xs"

text \<open>\<open>Array.prototype.join\<close>: \<open>undefined\<close> is joined as the empty string.\<close>

definition toStr :: "string option \<Rightarrow> string" where
  "toStr x = (case x of None \<Rightarrow> [] | Some s \<Rightarrow> s)"

fun joinJS :: "string \<Rightarrow> string option list \<Rightarrow> string" where
  "joinJS sep [] = []"
| "joinJS sep [x] = toStr x"
| "joinJS sep (x # y # rest) = toStr x @ sep @ joinJS sep (y # rest)"

definition bracket :: "string option list \<Rightarrow> string" where
  "bracket variants = ''{'' @ joinJS '', '' (sortJS variants) @ ''}''"

text \<open>\<open>String.prototype.slice\<close>; a negative index counts from the end.\<close>

definition slice :: "string \<Rightarrow> int \<Rightarrow> int \<Rightarrow> string" where
  "slice s a b =
     (let len = int (length s);
          from = (if a < 0 then max (len + a) 0 else min a len);
          to = (if b < 0 then max (len + b) 0 else min b len)
      in take (nat (to - from)) (drop (nat from) s))"

text \<open>The loop of lines 200-221.\<close>

function composeLoop ::
  "string \<Rightarrow> range list \<Rightarrow> range list \<Rightarrow> string list list \<Rightarrow> bool \<Rightarrow> nat \<Rightarrow> nat \<Rightarrow> string list
     \<Rightarrow> string list" where
  "composeLoop ref unchangedRanges varyingRanges varyingLists onVarying varyingIdx unchangedIdx
       combined =
     (if (if onVarying then varyingIdx < length varyingRanges
          else unchangedIdx < length unchangedRanges) then
        (if onVarying then
           composeLoop ref unchangedRanges varyingRanges varyingLists False (varyingIdx + 1)
             unchangedIdx (combined @ [bracket (variantsAt varyingLists varyingIdx)])
         else
           composeLoop ref unchangedRanges varyingRanges varyingLists True varyingIdx
             (unchangedIdx + 1)
             (combined @ [slice ref (start (unchangedRanges ! unchangedIdx))
                                    (stop (unchangedRanges ! unchangedIdx))]))
      else combined)"
  by pat_completeness auto
termination
  by (relation "measure (\<lambda>(ref, unchangedRanges, varyingRanges, varyingLists, onVarying,
          varyingIdx, unchangedIdx, combined).
            (length varyingRanges - varyingIdx) + (length unchangedRanges - unchangedIdx))")
     (auto split: if_splits)

declare composeLoop.simps [simp del]

text \<open>
  Lines 196-223. Line 197 reads \<open>varyingRanges[0].start\<close>: with no varying range
  \<open>varyingRanges[0]\<close> is \<open>undefined\<close> and the read throws.
\<close>

definition compose ::
  "string \<Rightarrow> range list \<Rightarrow> range list \<Rightarrow> string list list \<Rightarrow> error + string" where
  "compose ref unchangedRanges varyingRanges varyingLists =
     (case varyingRanges of
        [] \<Rightarrow> Inl TypeError
      | first # _ \<Rightarrow>
          Inr (concat (composeLoop ref unchangedRanges varyingRanges varyingLists
                         (start first = 0) 0 0 [])))"

subsection \<open>\<open>mergeStrings\<close> (lines 15-224)\<close>

text \<open>Lines 32-223, for a list of two strings or more whose first is \<open>ref\<close>.\<close>

definition mergeMany :: "differ \<Rightarrow> string \<Rightarrow> string list \<Rightarrow> error + string" where
  "mergeMany diffArrays ref strs =
     (let diffs = map (diffSegmented diffArrays ref) strs in
      case unchangedSetsOf ref diffs of
        Inl e \<Rightarrow> Inl e
      | Inr unchangedSets \<Rightarrow>
          (case intersectAll unchangedSets of
             Inl e \<Rightarrow> Inl e
           | Inr unchangedCommon \<Rightarrow>
               (let unchangedRanges = unchangedRangesOf unchangedCommon (length ref);
                    varyingRanges = varyingRangesOf unchangedRanges (length ref)
                in case varyingListsOf varyingRanges diffs of
                     Inl e \<Rightarrow> Inl e
                   | Inr varyingLists \<Rightarrow>
                       compose ref unchangedRanges varyingRanges varyingLists)))"

text \<open>
  The argument is a list, so the test \<open>!strings\<close> of line 16 is false and only
  \<open>strings.length === 0\<close> remains.
\<close>

definition mergeStrings :: "differ \<Rightarrow> string list \<Rightarrow> error + string" where
  "mergeStrings diffArrays strs =
     (case strs of
        [] \<Rightarrow> Inl EmptyInput
      | [s] \<Rightarrow> Inr s
      | ref # _ \<Rightarrow> mergeMany diffArrays ref strs)"

subsection \<open>The array differ\<close>

text \<open>
  Modelled from the spec: \<open>diffArrays\<close> of the package \<open>diff\<close>, which \<open>utils.js\<close>
  requires and which is not among the sources. Section 4.2 of the specification: an
  array diff by longest common subsequence, \<open>unchanged\<close> for the matched tokens,
  \<open>removed\<close> and \<open>added\<close> for the gaps around them, in the order of the inputs, and
  deterministic. \<open>lcsLength\<close> is the length of a longest common subsequence.
\<close>

fun lcsLength :: "'a list \<Rightarrow> 'a list \<Rightarrow> nat" where
  "lcsLength [] ys = 0"
| "lcsLength (x # xs) [] = 0"
| "lcsLength (x # xs) (y # ys) =
     (if x = y then Suc (lcsLength xs ys)
      else max (lcsLength xs (y # ys)) (lcsLength (x # xs) ys))"

text \<open>
  Modelled from the spec: an edit is a run of tokens of one tag. A token joins the run
  that follows it when the run has the same tag, and starts a run otherwise; \<open>count\<close> is
  the number of tokens of the run.
\<close>

fun pushToken :: "bool \<Rightarrow> bool \<Rightarrow> 'a \<Rightarrow> 'a list change list \<Rightarrow> 'a list change list" where
  "pushToken a r t [] = [\<lparr>count = 1, added = a, removed = r, val = [t]\<rparr>]"
| "pushToken a r t (e # es) =
     (if added e = a \<and> removed e = r then
        \<lparr>count = count e + 1, added = a, removed = r, val = t # val e\<rparr> # es
      else \<lparr>count = 1, added = a, removed = r, val = [t]\<rparr> # e # es)"

text \<open>
  Modelled from the spec: the earliest-match preference of section 4.2. The head \<open>x\<close> of
  the old list is matched by some longest common subsequence of \<open>x # xs\<close> and \<open>ys\<close>;
  its partner is then its first occurrence in \<open>ys\<close>.
\<close>

definition matchesHead :: "'a \<Rightarrow> 'a list \<Rightarrow> 'a list \<Rightarrow> bool" where
  "matchesHead x xs ys =
     (x \<in> set ys \<and>
      Suc (lcsLength xs (tl (dropWhile (\<lambda>y. y \<noteq> x) ys))) = lcsLength (x # xs) ys)"

text \<open>
  Modelled from the spec: the edit script of section 4.2. Equal heads are matched. Where
  the heads differ and a longest common subsequence matches the head of the old list,
  the tokens of the new list before its partner are added; otherwise the head of the old
  list is removed. Ties between longest common subsequences are so resolved for the
  earliest match, and the removals of a gap come before its additions.
\<close>

fun diffArrays :: "'a list \<Rightarrow> 'a list \<Rightarrow> 'a list change list" where
  "diffArrays [] [] = []"
| "diffArrays [] (y # ys) = pushToken True False y (diffArrays [] ys)"
| "diffArrays (x # xs) [] = pushToken False True x (diffArrays xs [])"
| "diffArrays (x # xs) (y # ys) =
     (if x = y then pushToken False False x (diffArrays xs ys)
      else if matchesHead x xs (y # ys) then
        pushToken True False y (diffArrays (x # xs) ys)
      else pushToken False True x (diffArrays xs (y # ys)))"

subsection \<open>The cursor of the specification\<close>

text \<open>
  Section 4.3 of the specification, in its words: the cursor starts at 0 and advances once
  per character of every edit that is not \<open>added\<close>. This is the specification's reading,
  to be compared with \<open>walkEdits\<close>.
\<close>

definition cursorAfter :: "string change list \<Rightarrow> int" where
  "cursorAfter diff =
     (\<Sum>edit \<leftarrow> filter (\<lambda>edit. \<not> added edit) diff. int (length (val edit)))"

subsection \<open>Intermediate values named for the statements\<close>

text \<open>
  The values of \<open>unchangedRanges\<close> after line 93 and of \<open>varyingRanges\<close> after line 119,
  as \<open>mergeMany\<close> computes them from the diffs: the anchor finder, the intersection and
  the range partitioner in sequence.
\<close>

definition unchangedRangesFor :: "string \<Rightarrow> string change list list \<Rightarrow> error + range list" where
  "unchangedRangesFor ref diffs =
     (case unchangedSetsOf ref diffs of
        Inl e \<Rightarrow> Inl e
      | Inr unchangedSets \<Rightarrow>
          (case intersectAll unchangedSets of
             Inl e \<Rightarrow> Inl e
           | Inr unchangedCommon \<Rightarrow> Inr (unchangedRangesOf unchangedCommon (length ref))))"

definition varyingRangesFor :: "string \<Rightarrow> string change list list \<Rightarrow> error + range list" where
  "varyingRangesFor ref diffs =
     (case unchangedRangesFor ref diffs of
        Inl e \<Rightarrow> Inl e
      | Inr unchangedRanges \<Rightarrow> Inr (varyingRangesOf unchangedRanges (length ref)))"

subsection \<open>The composer of the specification\<close>

text \<open>Joining strings with a separator, every entry a string.\<close>

fun joinStrings :: "string \<Rightarrow> string list \<Rightarrow> string" where
  "joinStrings sep [] = []"
| "joinStrings sep [x] = x"
| "joinStrings sep (x # y # rest) = x @ sep @ joinStrings sep (y # rest)"

text \<open>
  Section 4.6 of the specification, in its words: the output alternates between the
  bracket of the current varying range and the text of the current anchor range, starting
  with a bracket when the first varying range begins at offset 0, and ends when the list
  whose turn it is has no element left. \<open>alternate xs ys\<close> takes from \<open>xs\<close> first.
\<close>

function alternate :: "'a list \<Rightarrow> 'a list \<Rightarrow> 'a list" where
  "alternate [] ys = []"
| "alternate (x # xs) ys = x # alternate ys xs"
  by pat_completeness auto
termination
  by (relation "measure (\<lambda>(xs, ys). length xs + length ys)") auto

definition template :: "string \<Rightarrow> range list \<Rightarrow> range list \<Rightarrow> string list list \<Rightarrow> string list" where
  "template ref unchangedRanges varyingRanges varyingLists =
     (case varyingRanges of
        [] \<Rightarrow> []
      | first # _ \<Rightarrow>
          if start first = 0 then
            alternate (map (\<lambda>i. bracket (variantsAt varyingLists i)) [0 ..< length varyingRanges])
                      (map (\<lambda>r. slice ref (start r) (stop r)) unchangedRanges)
          else
            alternate (map (\<lambda>r. slice ref (start r) (stop r)) unchangedRanges)
                      (map (\<lambda>i. bracket (variantsAt varyingLists i)) [0 ..< length varyingRanges]))"

text \<open>
  The place of the bracket of the varying range \<open>i\<close> among the pieces of the output:
  every second piece, from the first piece or from the second.
\<close>

definition bracketPosition :: "range list \<Rightarrow> nat \<Rightarrow> nat" where
  "bracketPosition varyingRanges i =
     2 * i + (case varyingRanges of [] \<Rightarrow> 0 | first # _ \<Rightarrow> if start first = 0 then 0 else 1)"

section \<open>Properties\<close>

subsection \<open>Tokenizer\<close>

text \<open>
  C7: for every string, the tokens of \<open>segmentString\<close>, concatenated in order, are the
  string itself.
\<close>

theorem segmentString_concat: "concat (segmentString s) = s"
  by (induction s rule: segmentString.induct) simp_all

lemma concat_segmentString: "concat (segmentString s) = s"
  by (induction s rule: segmentString.induct) simp_all

subsection \<open>The cases decided before any diff\<close>

text \<open>
  C2: for every string \<open>s\<close>, the empty one included, and whatever the differ,
  \<open>mergeStrings\<close> applied to the list \<open>[s]\<close> returns \<open>s\<close>.
\<close>

theorem mergeStrings_single: "mergeStrings D [s] = Inr s"
  by (simp add: mergeStrings_def)

text \<open>
  C4: \<open>mergeStrings\<close> applied to the empty list fails with \<open>EmptyInput\<close> and returns no
  value, whatever the differ.
\<close>

theorem mergeStrings_empty: "mergeStrings D [] = Inl EmptyInput"
  by (simp add: mergeStrings_def)

subsection \<open>The anchor finder's check\<close>

lemma markChars_eq:
  "markChars r v (u, p) =
     ((if r then u else u \<union> {p ..< p + int (length v)}), p + int (length v))"
  by (induction r v "(u, p)" arbitrary: u p rule: markChars.induct) auto

lemma walkEdits_snd: "snd (walkEdits diff st) = snd st + cursorAfter diff"
  by (induction diff arbitrary: st) (auto simp: cursorAfter_def markChars_eq split: prod.splits)

lemma unchangedSet_eq:
  "unchangedSet ref diff =
     (if cursorAfter diff = int (length ref) then Inr (fst (walkEdits diff ({}, 0)))
      else Inl DiffCoverageMismatch)"
  using walkEdits_snd [of diff "({}, 0)"]
  by (auto simp: unchangedSet_def split: prod.splits)

lemma unchangedSetsOf_eq:
  "unchangedSetsOf ref diffs =
     (if \<forall>d \<in> set diffs. cursorAfter d = int (length ref)
      then Inr (map (\<lambda>d. fst (walkEdits d ({}, 0))) diffs)
      else Inl DiffCoverageMismatch)"
  by (induction diffs) (simp_all add: unchangedSet_eq)

text \<open>Every later stage fails with \<open>TypeError\<close> only.\<close>

lemma skipBefore_Inl: "skipBefore chars s idx = Inl e \<Longrightarrow> e = TypeError"
  by (induction chars s idx rule: skipBefore.induct)
     (subst (asm) skipBefore.simps, auto split: if_splits)

lemma takeWithin_Inl: "takeWithin chars s idx part = Inl e \<Longrightarrow> e = TypeError"
  by (induction chars s idx part rule: takeWithin.induct)
     (subst (asm) takeWithin.simps, auto split: if_splits)

lemma extractParts_Inl: "extractParts chars ranges idx parts = Inl e \<Longrightarrow> e = TypeError"
  by (induction ranges arbitrary: idx parts)
     (auto split: if_splits sum.splits prod.splits dest: skipBefore_Inl takeWithin_Inl)

lemma varyingListsOf_Inl: "varyingListsOf vr diffs = Inl e \<Longrightarrow> e = TypeError"
  by (induction diffs) (auto simp: varyingPartsOf_def split: sum.splits dest: extractParts_Inl)

lemma compose_Inl: "compose ref ur vr vls = Inl e \<Longrightarrow> e = TypeError"
  by (auto simp: compose_def split: list.splits)

lemma intersectAll_Inl: "intersectAll us = Inl e \<Longrightarrow> e = TypeError"
  by (auto simp: intersectAll_def split: list.splits)

lemma mergeMany_Inl_cases:
  "mergeMany D ref strs = Inl e \<Longrightarrow>
     unchangedSetsOf ref (map (diffSegmented D ref) strs) = Inl e \<or> e = TypeError"
  by (auto simp: mergeMany_def Let_def split: sum.splits
           dest: intersectAll_Inl varyingListsOf_Inl compose_Inl)

text \<open>
  C8: for each edit script the anchor finder fails with \<open>DiffCoverageMismatch\<close> exactly
  when the cursor, advanced once per character of every edit that is not added, differs
  from the length of the reference string at the end of the script. For the whole call on
  two strings or more: \<open>mergeStrings\<close> fails with \<open>DiffCoverageMismatch\<close> exactly when
  the script of some input string leaves the cursor elsewhere.
\<close>

theorem coverage_mismatch_iff:
  "(unchangedSet ref diff = Inl DiffCoverageMismatch
      \<longleftrightarrow> cursorAfter diff \<noteq> int (length ref)) \<and>
   (mergeStrings D (ref # s # rest) = Inl DiffCoverageMismatch \<longleftrightarrow>
      (\<exists>str \<in> set (ref # s # rest).
          cursorAfter (diffSegmented D ref str) \<noteq> int (length ref)))"
proof
  show "unchangedSet ref diff = Inl DiffCoverageMismatch
          \<longleftrightarrow> cursorAfter diff \<noteq> int (length ref)"
    by (simp add: unchangedSet_eq)
next
  let ?strs = "ref # s # rest"
  let ?diffs = "map (diffSegmented D ref) ?strs"
  have m: "mergeStrings D ?strs = mergeMany D ref ?strs"
    by (simp add: mergeStrings_def)
  have bad: "unchangedSetsOf ref ?diffs = Inl DiffCoverageMismatch \<longleftrightarrow>
      (\<exists>str \<in> set ?strs. cursorAfter (diffSegmented D ref str) \<noteq> int (length ref))"
    by (auto simp: unchangedSetsOf_eq)
  have "mergeMany D ref ?strs = Inl DiffCoverageMismatch \<longleftrightarrow>
      unchangedSetsOf ref ?diffs = Inl DiffCoverageMismatch"
  proof
    assume "mergeMany D ref ?strs = Inl DiffCoverageMismatch"
    from mergeMany_Inl_cases [OF this]
    show "unchangedSetsOf ref ?diffs = Inl DiffCoverageMismatch"
      by simp
  next
    assume "unchangedSetsOf ref ?diffs = Inl DiffCoverageMismatch"
    then show "mergeMany D ref ?strs = Inl DiffCoverageMismatch"
      by (simp add: mergeMany_def Let_def)
  qed
  with m bad show "mergeStrings D ?strs = Inl DiffCoverageMismatch \<longleftrightarrow>
      (\<exists>str \<in> set ?strs. cursorAfter (diffSegmented D ref str) \<noteq> int (length ref))"
    by simp
qed

text \<open>
  A differ that returns the empty script for every pair leaves the cursor at 0, short of
  the length of \<open>''a''\<close>.
\<close>

theorem coverage_mismatch_iff_witness:
  "mergeStrings (\<lambda>old new. []) [''a'', ''b''] = Inl DiffCoverageMismatch"
  using coverage_mismatch_iff [of "''a''" "[]" "\<lambda>old new. []" "''b''" "[]"]
  by (auto simp: cursorAfter_def diffSegmented_def)

subsection \<open>Examples of the specification\<close>

text \<open>
  C1: for the list \<open>[''Error on host-1'', ''Error on host-2'']\<close> \<open>mergeStrings\<close> returns
  exactly \<open>''Error on {host-1, host-2}''\<close>.
\<close>

theorem merge_hosts:
  "mergeStrings diffArrays [''Error on host-1'', ''Error on host-2'']
     = Inr ''Error on {host-1, host-2}''"
  by code_simp

text \<open>
  C5, as the specification states it, fails: for \<open>[''abc'', ''abd'']\<close> the result is not
  \<open>''ab{c, d}''\<close>.
\<close>

theorem merge_abc_abd_counterexample:
  "mergeStrings diffArrays [''abc'', ''abd''] \<noteq> Inr ''ab{c, d}''"
  by code_simp

text \<open>
  C5, amended: \<open>''abc''\<close> and \<open>''abd''\<close> are one token each, the tokens differ, so the
  whole token varies and \<open>mergeStrings\<close> returns \<open>''{abc, abd}''\<close>.
\<close>

theorem merge_abc_abd:
  "mergeStrings diffArrays [''abc'', ''abd''] = Inr ''{abc, abd}''"
  by code_simp

subsection \<open>Identical strings\<close>

text \<open>The differ on two equal token lists: one unchanged run, or nothing at all.\<close>

lemma diffArrays_same:
  "diffArrays xs xs =
     (if xs = [] then [] else [\<lparr>count = length xs, added = False, removed = False, val = xs\<rparr>])"
  by (induction xs) auto

lemma segmentString_Nil_iff: "segmentString s = [] \<longleftrightarrow> s = []"
  by (cases s) simp_all

lemma diffSegmented_same:
  "diffSegmented diffArrays s s =
     (if s = [] then [] else [\<lparr>count = length s, added = False, removed = False, val = s\<rparr>])"
  by (simp add: diffSegmented_def diffArrays_same segmentString_Nil_iff joinChange_def
        concat_segmentString)

lemma cursorAfter_same: "cursorAfter (diffSegmented diffArrays s s) = int (length s)"
  by (simp add: diffSegmented_same cursorAfter_def)

lemma unchanged_same:
  "fst (walkEdits (diffSegmented diffArrays s s) ({}, 0)) = {0 ..< int (length s)}"
  by (simp add: diffSegmented_same markChars_eq)

lemma scan_full_prefix:
  "k \<le> n \<Longrightarrow>
     foldl (scanStep {0 ..< int n}) (False, - 1, []) (map int [0..<k])
       = (0 < k, (if 0 < k then 0 else - 1), [])"
  by (induction k) auto

lemma unchangedRangesOf_full:
  "unchangedRangesOf {0 ..< int n} n = (if n = 0 then [] else [\<lparr>start = 0, stop = int n\<rparr>])"
  by (simp add: unchangedRangesOf_def scan_full_prefix)

lemma varyingRangesOf_full: "varyingRangesOf (unchangedRangesOf {0 ..< int n} n) n = []"
  by (simp add: unchangedRangesOf_full varyingRangesOf_def)

lemma varyingListsOf_no_ranges: "varyingListsOf [] diffs = Inr (map (\<lambda>d. []) diffs)"
  by (induction diffs) (simp_all add: varyingPartsOf_def)

text \<open>
  C3: the specification expects \<open>mergeStrings\<close> on three copies of a string \<open>s\<close> to
  return \<open>s\<close>. The code does not: identical strings leave no varying range, line 197
  reads \<open>varyingRanges[0].start\<close> all the same, and the call ends in a \<open>TypeError\<close>,
  for every \<open>s\<close>.
\<close>

theorem merge_identical_throws: "mergeStrings diffArrays [s, s, s] = Inl TypeError"
  by (simp add: mergeStrings_def mergeMany_def unchangedSetsOf_eq cursorAfter_same
        unchanged_same intersectAll_def varyingRangesOf_full varyingListsOf_no_ranges
        compose_def del: varyingListsOf.simps)

subsection \<open>Failures outside the two declared kinds\<close>

text \<open>
  C6: the specification allows \<open>EmptyInput\<close> and \<open>DiffCoverageMismatch\<close> as the only
  failures of a call. The code has two more, both reads of a property of \<open>undefined\<close>:
  line 197 on two equal strings, where no range varies, and line 164 on a string and the
  empty string, where the second diff contributes no character entry and \<open>chars[0]\<close>
  is read.
\<close>

theorem undefined_dereference:
  "mergeStrings diffArrays [''a'', ''a''] = Inl TypeError \<and>
   mergeStrings diffArrays [''a'', ''''] = Inl TypeError"
  by code_simp

subsection \<open>The character entries of a diff\<close>

text \<open>
  The two walks over an edit script agree: the offsets the anchor finder records are the
  cursors of the entries that the variant extractor does not mark as adjacent, and both
  end at the cursor of the specification.
\<close>

lemma keptChars_snd: "snd (keptChars r v (chars, p)) = p + int (length v)"
  by (induction r v "(chars, p)" arbitrary: chars p rule: keptChars.induct) auto

lemma keptChars_unchanged:
  "fst (markChars r v (ptr ` {e \<in> set chars. \<not> countAdjacent e}, p))
     = ptr ` {e \<in> set (fst (keptChars r v (chars, p))). \<not> countAdjacent e}"
proof (induction r v "(chars, p)" arbitrary: chars p rule: keptChars.induct)
  case (1 r chars p)
  show ?case by simp
next
  case (2 r c cs chars p)
  show ?case
  proof (cases r)
    case True
    with 2 show ?thesis by simp
  next
    case False
    let ?chars = "chars @ [\<lparr>ptr = p, ch = c, countAdjacent = False\<rparr>]"
    have "{e \<in> set ?chars. \<not> countAdjacent e}
            = insert \<lparr>ptr = p, ch = c, countAdjacent = False\<rparr> {e \<in> set chars. \<not> countAdjacent e}"
      by auto
    then have "insert p (ptr ` {e \<in> set chars. \<not> countAdjacent e})
            = ptr ` {e \<in> set ?chars. \<not> countAdjacent e}"
      by simp
    with 2 False show ?thesis by simp
  qed
qed

lemma walk_collect:
  "walkEdits diff (ptr ` {e \<in> set chars. \<not> countAdjacent e}, p)
     = (ptr ` {e \<in> set (fst (collectChars diff (chars, p))). \<not> countAdjacent e},
        snd (collectChars diff (chars, p)))"
proof (induction diff arbitrary: chars p)
  case Nil
  show ?case by simp
next
  case (Cons edit diff)
  show ?case
  proof (cases "added edit")
    case True
    let ?chars = "chars @ map (\<lambda>c. \<lparr>ptr = p, ch = c, countAdjacent = True\<rparr>) (val edit)"
    have "{e \<in> set ?chars. \<not> countAdjacent e} = {e \<in> set chars. \<not> countAdjacent e}"
      by auto
    with True Cons [of ?chars p] show ?thesis by simp
  next
    case False
    obtain chars' p' where k: "keptChars (removed edit) (val edit) (chars, p) = (chars', p')"
      by (cases "keptChars (removed edit) (val edit) (chars, p)")
    have p': "p' = p + int (length (val edit))"
      using keptChars_snd [of "removed edit" "val edit" chars p] k by simp
    have "markChars (removed edit) (val edit) (ptr ` {e \<in> set chars. \<not> countAdjacent e}, p)
            = (ptr ` {e \<in> set chars'. \<not> countAdjacent e}, p')"
      using keptChars_unchanged [of "removed edit" "val edit" chars p] k p'
      by (simp add: markChars_eq)
    with False k Cons [of chars' p'] show ?thesis by simp
  qed
qed

lemma unchanged_of_chars:
  "fst (walkEdits diff ({}, 0)) = ptr ` {e \<in> set (charsOf diff). \<not> countAdjacent e}"
  using walk_collect [of diff "[]" 0] by (simp add: charsOf_def)

lemma collectChars_snd: "snd (collectChars diff (chars, p)) = p + cursorAfter diff"
  using walk_collect [of diff chars p] walkEdits_snd [of diff "(ptr ` {e \<in> set chars. \<not> countAdjacent e}, p)"]
  by simp

lemma keptChars_bounds:
  "\<forall>e \<in> set chars. lo \<le> ptr e \<and> ptr e \<le> p \<Longrightarrow> lo \<le> p \<Longrightarrow>
     \<forall>e \<in> set (fst (keptChars r v (chars, p))). lo \<le> ptr e \<and> ptr e \<le> p + int (length v)"
proof (induction r v "(chars, p)" arbitrary: chars p rule: keptChars.induct)
  case (1 r chars p)
  then show ?case by simp
next
  case (2 r c cs chars p)
  let ?chars = "(if \<not> r then chars @ [\<lparr>ptr = p, ch = c, countAdjacent = False\<rparr>] else chars)"
  have "\<forall>e \<in> set ?chars. lo \<le> ptr e \<and> ptr e \<le> p + 1"
    using 2(2,3) by auto
  moreover have "lo \<le> p + 1" using 2(3) by simp
  ultimately have "\<forall>e \<in> set (fst (keptChars r cs (?chars, p + 1))).
      lo \<le> ptr e \<and> ptr e \<le> p + 1 + int (length cs)"
    by (rule 2(1))
  then show ?case by (cases r) (simp_all add: algebra_simps)
qed

lemma collectChars_bounds:
  "\<forall>e \<in> set chars. lo \<le> ptr e \<and> ptr e \<le> p \<Longrightarrow> lo \<le> p \<Longrightarrow>
     \<forall>e \<in> set (fst (collectChars diff (chars, p))). lo \<le> ptr e \<and> ptr e \<le> p + cursorAfter diff"
proof (induction diff arbitrary: chars p)
  case Nil
  then show ?case by (simp add: cursorAfter_def)
next
  case (Cons edit diff)
  show ?case
  proof (cases "added edit")
    case True
    let ?chars = "chars @ map (\<lambda>c. \<lparr>ptr = p, ch = c, countAdjacent = True\<rparr>) (val edit)"
    have "\<forall>e \<in> set ?chars. lo \<le> ptr e \<and> ptr e \<le> p" using Cons.prems by auto
    from Cons.IH [OF this Cons.prems(2)] True show ?thesis by (simp add: cursorAfter_def)
  next
    case False
    obtain chars' p' where k: "keptChars (removed edit) (val edit) (chars, p) = (chars', p')"
      by (cases "keptChars (removed edit) (val edit) (chars, p)")
    have p': "p' = p + int (length (val edit))"
      using keptChars_snd [of "removed edit" "val edit" chars p] k by simp
    have b: "\<forall>e \<in> set chars'. lo \<le> ptr e \<and> ptr e \<le> p'"
      using keptChars_bounds [OF Cons.prems, of "removed edit" "val edit"] k p' by simp
    have "lo \<le> p'" using p' Cons.prems(2) by simp
    from Cons.IH [OF b this] False k p' show ?thesis by (simp add: cursorAfter_def add.assoc)
  qed
qed

lemma charsOf_bounds:
  "e \<in> set (charsOf diff) \<Longrightarrow> 0 \<le> ptr e \<and> ptr e \<le> cursorAfter diff"
  using collectChars_bounds [of "[]" 0 0 diff] by (simp add: charsOf_def)

lemma scan_empty: "foldl (scanStep {}) (False, r, acc) xs = (False, r, acc)"
  by (induction xs) simp_all

lemma unchangedRangesOf_empty: "unchangedRangesOf {} n = []"
  by (simp add: unchangedRangesOf_def scan_empty del: upt_Suc)

lemma varyingRangesOf_empty:
  "varyingRangesOf [] n = (if n = 0 then [] else [\<lparr>start = 0, stop = int n\<rparr>])"
  by (simp add: varyingRangesOf_def)

lemma foldl_Int_subset: "foldl (\<inter>) a us \<subseteq> a"
  by (induction us arbitrary: a) (auto simp: subset_iff)

lemma foldl_Int_member: "u \<in> set us \<Longrightarrow> foldl (\<inter>) a us \<subseteq> u"
proof (induction us arbitrary: a)
  case Nil
  then show ?case by simp
next
  case (Cons v us)
  show ?case
  proof (cases "u = v")
    case True
    have "foldl (\<inter>) (a \<inter> v) us \<subseteq> a \<inter> v" by (rule foldl_Int_subset)
    with True show ?thesis by auto
  next
    case False
    with Cons show ?thesis by simp
  qed
qed

lemma skipBefore_ok:
  "idx < length chars \<Longrightarrow>
     \<exists>idx' dn. skipBefore chars s idx = Inr (idx', dn) \<and> (\<not> dn \<longrightarrow> idx' < length chars)"
  by (induction chars s idx rule: skipBefore.induct)
     (subst skipBefore.simps, auto)

lemma takeWithin_ok:
  "idx < length chars \<Longrightarrow>
     \<exists>idx' dn part'. takeWithin chars s idx part = Inr (idx', dn, part')
        \<and> (\<not> dn \<longrightarrow> idx' < length chars)"
  by (induction chars s idx part rule: takeWithin.induct)
     (subst takeWithin.simps, auto)

lemma extractParts_ok:
  "idx < length chars \<Longrightarrow> \<exists>ps. extractParts chars ranges idx parts = Inr ps"
proof (induction ranges arbitrary: idx parts)
  case Nil
  show ?case by simp
next
  case (Cons r ranges)
  obtain i1 d1 where s: "skipBefore chars (start r) idx = Inr (i1, d1)"
      and i1: "\<not> d1 \<longrightarrow> i1 < length chars"
    using skipBefore_ok [OF Cons.prems] by blast
  show ?case
  proof (cases "stop r < ptr (chars ! idx) \<or> d1")
    case True
    with Cons s show ?thesis by auto
  next
    case False
    then have "i1 < length chars" using i1 by simp
    then obtain i2 d2 part where t: "takeWithin chars (stop r) i1 [] = Inr (i2, d2, part)"
      and i2: "\<not> d2 \<longrightarrow> i2 < length chars"
      using takeWithin_ok by blast
    show ?thesis
    proof (cases d2)
      case True
      with False Cons.prems s t show ?thesis by simp
    next
      case d2f: False
      then have "i2 < length chars" using i2 by simp
      from Cons.IH [OF this] obtain ps
        where "extractParts chars ranges i2 (parts @ [part]) = Inr ps" by blast
      with False d2f Cons.prems s t show ?thesis by simp
    qed
  qed
qed

lemma extractParts_whole:
  assumes "chars \<noteq> []" and "\<forall>e \<in> set chars. 0 \<le> ptr e \<and> ptr e \<le> n"
    and "extractParts chars [\<lparr>start = 0, stop = n\<rparr>] 0 [] = Inr ps"
  shows "length ps = 1"
proof -
  have l: "0 < length chars" using assms(1) by simp
  then have c0: "chars ! 0 \<in> set chars" by simp
  then have b: "0 \<le> ptr (chars ! 0)" "ptr (chars ! 0) \<le> n" using assms(2) by blast+
  have s: "skipBefore chars 0 0 = Inr (0, False)"
    using l b by (subst skipBefore.simps) simp
  obtain i2 d2 part where t: "takeWithin chars n 0 [] = Inr (i2, d2, part)"
    using takeWithin_ok [OF l] by blast
  from assms(3) l b s t show ?thesis by (auto split: if_splits)
qed

subsection \<open>A variant list shorter than the list of varying ranges\<close>

lemma mergeMany_ok:
  "varyingRangesFor ref (map (diffSegmented D ref) strs) = Inr vr \<Longrightarrow> vr \<noteq> [] \<Longrightarrow>
   varyingListsOf vr (map (diffSegmented D ref) strs) = Inr vls \<Longrightarrow>
   \<exists>out. mergeMany D ref strs = Inr out"
  by (auto simp: mergeMany_def varyingRangesFor_def unchangedRangesFor_def Let_def compose_def
           split: sum.splits list.splits)

lemma varyingListsOf_ok:
  "\<forall>d \<in> set diffs. \<exists>ps. varyingPartsOf vr d = Inr ps \<Longrightarrow>
     \<exists>vls. varyingListsOf vr diffs = Inr vls \<and>
       (\<forall>d \<in> set diffs. \<forall>ps. varyingPartsOf vr d = Inr ps \<longrightarrow> ps \<in> set vls)"
proof (induction diffs)
  case Nil
  show ?case by simp
next
  case (Cons d diffs)
  from Cons.prems obtain ps where ps: "varyingPartsOf vr d = Inr ps" by auto
  from Cons obtain vls where vls: "varyingListsOf vr diffs = Inr vls"
    and mem: "\<forall>d \<in> set diffs. \<forall>ps. varyingPartsOf vr d = Inr ps \<longrightarrow> ps \<in> set vls"
    by auto
  from ps vls mem show ?case by auto
qed

lemma set_foldl_setAdd: "set (foldl setAdd acc xs) = set acc \<union> set xs"
  by (induction xs arbitrary: acc) (auto simp: setAdd_def)

lemma distinct_foldl_setAdd: "distinct acc \<Longrightarrow> distinct (foldl setAdd acc xs)"
  by (induction xs arbitrary: acc) (auto simp: setAdd_def)

lemma filter_None_distinct:
  "distinct vs \<Longrightarrow> None \<in> set vs \<Longrightarrow> filter (\<lambda>x. x = None) vs = [None]"
proof (induction vs)
  case Nil
  then show ?case by simp
next
  case (Cons v vs)
  show ?case
  proof (cases v)
    case None
    with Cons.prems have "None \<notin> set vs" by simp
    then have "filter (\<lambda>x. x = None) vs = []" unfolding filter_empty_conv by metis
    with None show ?thesis by simp
  next
    case (Some s)
    with Cons show ?thesis by simp
  qed
qed

lemma joinJS_joinStrings: "joinJS sep xs = joinStrings sep (map toStr xs)"
  by (induction sep xs rule: joinJS.induct) simp_all

lemma bracket_with_undefined:
  "distinct vs \<Longrightarrow> None \<in> set vs \<Longrightarrow>
     bracket vs = ''{'' @ joinStrings '', '' (sort (strings vs) @ ['''']) @ ''}''"
  by (simp add: bracket_def sortJS_def filter_None_distinct joinJS_joinStrings toStr_def
        comp_def)

lemma varyingRangesFor_Inr:
  assumes "varyingRangesFor ref diffs = Inr vr"
  shows "\<forall>d \<in> set diffs. cursorAfter d = int (length ref)"
    and "\<exists>common. (\<forall>d \<in> set diffs. common \<subseteq> fst (walkEdits d ({}, 0))) \<and>
           vr = varyingRangesOf (unchangedRangesOf common (length ref)) (length ref)"
proof -
  from assms obtain us common where us: "unchangedSetsOf ref diffs = Inr us"
    and c: "intersectAll us = Inr common"
    and vr: "vr = varyingRangesOf (unchangedRangesOf common (length ref)) (length ref)"
    by (auto simp: varyingRangesFor_def unchangedRangesFor_def split: sum.splits)
  from us show cov: "\<forall>d \<in> set diffs. cursorAfter d = int (length ref)"
    by (simp add: unchangedSetsOf_eq split: if_splits)
  from us cov have us': "us = map (\<lambda>d. fst (walkEdits d ({}, 0))) diffs"
    by (simp add: unchangedSetsOf_eq)
  from c obtain u0 rest where "us = u0 # rest" and "common = foldl (\<inter>) u0 us"
    by (auto simp: intersectAll_def split: list.splits)
  then have "\<forall>u \<in> set us. common \<subseteq> u" using foldl_Int_member by blast
  with us' have "\<forall>d \<in> set diffs. common \<subseteq> fst (walkEdits d ({}, 0))" by simp
  with vr show "\<exists>common. (\<forall>d \<in> set diffs. common \<subseteq> fst (walkEdits d ({}, 0))) \<and>
           vr = varyingRangesOf (unchangedRangesOf common (length ref)) (length ref)"
    by blast
qed

subsection \<open>The composer against the specification\<close>

text \<open>
  The loop of lines 200-221 computes the alternation of section 4.6, and the range
  partitioner leaves enough anchor ranges for every bracket to be reached: the pieces of
  the output are \<open>template\<close>, and the bracket of the varying range \<open>i\<close> is the piece
  at \<open>bracketPosition\<close>.
\<close>

lemma composeLoop_alternate:
  "composeLoop ref ur vr vls onV vi ui acc =
     acc @ (if onV
            then alternate (map (\<lambda>i. bracket (variantsAt vls i)) [vi ..< length vr])
                           (map (\<lambda>r. slice ref (start r) (stop r)) (drop ui ur))
            else alternate (map (\<lambda>r. slice ref (start r) (stop r)) (drop ui ur))
                           (map (\<lambda>i. bracket (variantsAt vls i)) [vi ..< length vr]))"
proof (induction ref ur vr vls onV vi ui acc rule: composeLoop.induct)
  case (1 ref ur vr vls onV vi ui acc)
  show ?case
  proof (cases onV)
    case True
    show ?thesis
    proof (cases "vi < length vr")
      case lt: True
      have "[vi ..< length vr] = vi # [Suc vi ..< length vr]"
        using lt by (simp add: upt_conv_Cons)
      with 1(1) True lt show ?thesis
        by (subst composeLoop.simps) simp
    next
      case False
      with True show ?thesis by (subst composeLoop.simps) simp
    qed
  next
    case False
    show ?thesis
    proof (cases "ui < length ur")
      case lt: True
      have "drop ui ur = ur ! ui # drop (Suc ui) ur"
        using lt by (simp add: Cons_nth_drop_Suc)
      with 1(2) False lt show ?thesis
        by (subst composeLoop.simps) simp
    next
      case ge: False
      with False show ?thesis by (subst composeLoop.simps) simp
    qed
  qed
qed

lemma alternate_nth_even:
  "i < length xs \<Longrightarrow> i \<le> length ys \<Longrightarrow>
     2 * i < length (alternate xs ys) \<and> alternate xs ys ! (2 * i) = xs ! i"
proof (induction i arbitrary: xs ys)
  case 0
  then show ?case by (cases xs) simp_all
next
  case (Suc i)
  then obtain x xs' where xs: "xs = x # xs'" by (cases xs) auto
  from Suc obtain y ys' where ys: "ys = y # ys'" by (cases ys) auto
  from Suc.prems xs ys have "i < length xs'" "i \<le> length ys'" by simp_all
  from Suc.IH [OF this] xs ys show ?case by simp
qed

lemma alternate_nth_odd:
  "i < length xs \<Longrightarrow> i < length ys \<Longrightarrow>
     2 * i + 1 < length (alternate ys xs) \<and> alternate ys xs ! (2 * i + 1) = xs ! i"
proof -
  assume a: "i < length xs" "i < length ys"
  then obtain y ys' where ys: "ys = y # ys'" by (cases ys) auto
  with a have "i \<le> length ys'" by simp
  from alternate_nth_even [OF a(1) this] ys show ?thesis by simp
qed

lemma length_gaps: "length (gaps rs) \<le> length rs - 1"
  by (induction rs rule: gaps.induct) auto

lemma varyingRangesOf_count:
  assumes "varyingRangesOf ur n = first # others"
  shows "length (first # others) \<le> (if start first = 0 then Suc (length ur) else length ur)"
proof (cases "start first = 0")
  case True
  have "length (varyingRangesOf ur n) \<le> Suc (length ur)"
    using length_gaps [of "[\<lparr>start = - 1, stop = 0\<rparr>] @ ur @ [\<lparr>start = int n, stop = int n + 1\<rparr>]"]
    by (simp add: varyingRangesOf_def)
  with assms True show ?thesis by simp
next
  case False
  show ?thesis
  proof (cases ur)
    case Nil
    with assms False show ?thesis by (auto simp: varyingRangesOf_def split: if_splits)
  next
    case (Cons u ur')
    with assms False
    have "first # others = gaps (u # ur' @ [\<lparr>start = int n, stop = int n + 1\<rparr>])"
      by (auto simp: varyingRangesOf_def split: if_splits)
    with length_gaps [of "u # ur' @ [\<lparr>start = int n, stop = int n + 1\<rparr>]"] Cons False
    show ?thesis by simp
  qed
qed

lemma compose_template:
  assumes vr: "vr = varyingRangesOf ur n"
    and out: "compose ref ur vr vls = Inr out"
  shows "out = concat (template ref ur vr vls) \<and>
         (\<forall>i < length vr. bracketPosition vr i < length (template ref ur vr vls) \<and>
              template ref ur vr vls ! bracketPosition vr i = bracket (variantsAt vls i))"
proof -
  from out obtain first others where fm: "vr = first # others"
    by (cases vr) (simp_all add: compose_def)
  let ?Bs = "map (\<lambda>i. bracket (variantsAt vls i)) [0 ..< length vr]"
  let ?Us = "map (\<lambda>r. slice ref (start r) (stop r)) ur"
  let ?pieces = "template ref ur vr vls"
  have loop: "composeLoop ref ur vr vls (start first = 0) 0 0 [] = ?pieces"
    using fm by (simp add: composeLoop_alternate template_def del: upt_Suc)
  with out fm have o: "out = concat ?pieces" by (simp add: compose_def del: upt_Suc)
  from vr fm have "varyingRangesOf ur n = first # others" by simp
  from varyingRangesOf_count [OF this] fm
  have cnt: "length vr \<le> (if start first = 0 then Suc (length ur) else length ur)"
    by simp
  have "bracketPosition vr i < length ?pieces \<and>
        ?pieces ! bracketPosition vr i = bracket (variantsAt vls i)" if i: "i < length vr" for i
  proof (cases "start first = 0")
    case True
    then have p: "?pieces = alternate ?Bs ?Us" using fm by (simp add: template_def del: upt_Suc)
    have B: "?Bs ! i = bracket (variantsAt vls i)" using i by simp
    have pos: "bracketPosition vr i = 2 * i" using True fm by (simp add: bracketPosition_def)
    have "i < length ?Bs" "i \<le> length ?Us" using i cnt True by simp_all
    from alternate_nth_even [OF this]
    have "2 * i < length ?pieces \<and> ?pieces ! (2 * i) = ?Bs ! i" unfolding p .
    with B pos show ?thesis by simp
  next
    case False
    then have p: "?pieces = alternate ?Us ?Bs" using fm by (simp add: template_def del: upt_Suc)
    have B: "?Bs ! i = bracket (variantsAt vls i)" using i by simp
    have pos: "bracketPosition vr i = 2 * i + 1" using False fm by (simp add: bracketPosition_def)
    have "i < length ?Bs" "i < length ?Us" using i cnt False by simp_all
    from alternate_nth_odd [OF this]
    have "2 * i + 1 < length ?pieces \<and> ?pieces ! (2 * i + 1) = ?Bs ! i" unfolding p .
    with B pos show ?thesis by simp
  qed
  with o show ?thesis by blast
qed

lemma mergeStrings_template:
  assumes "mergeStrings D (ref # s # rest) = Inr out"
  shows "\<exists>ur vr vls.
           unchangedRangesFor ref (map (diffSegmented D ref) (ref # s # rest)) = Inr ur \<and>
           varyingRangesFor ref (map (diffSegmented D ref) (ref # s # rest)) = Inr vr \<and>
           varyingListsOf vr (map (diffSegmented D ref) (ref # s # rest)) = Inr vls \<and>
           out = concat (template ref ur vr vls) \<and>
           (\<forall>i < length vr. bracketPosition vr i < length (template ref ur vr vls) \<and>
                template ref ur vr vls ! bracketPosition vr i = bracket (variantsAt vls i))"
proof -
  let ?diffs = "map (diffSegmented D ref) (ref # s # rest)"
  from assms have m: "mergeMany D ref (ref # s # rest) = Inr out"
    by (simp add: mergeStrings_def)
  then obtain us common vls
    where us: "unchangedSetsOf ref ?diffs = Inr us"
      and c: "intersectAll us = Inr common"
      and vls: "varyingListsOf
                  (varyingRangesOf (unchangedRangesOf common (length ref)) (length ref)) ?diffs
                  = Inr vls"
      and cmp: "compose ref (unchangedRangesOf common (length ref))
                  (varyingRangesOf (unchangedRangesOf common (length ref)) (length ref)) vls
                  = Inr out"
    by (auto simp: mergeMany_def Let_def split: sum.splits
             simp del: varyingListsOf.simps unchangedSetsOf.simps)
  let ?ur = "unchangedRangesOf common (length ref)"
  let ?vr = "varyingRangesOf ?ur (length ref)"
  from us c have ur: "unchangedRangesFor ref ?diffs = Inr ?ur"
    by (simp add: unchangedRangesFor_def del: unchangedSetsOf.simps)
  then have vr: "varyingRangesFor ref ?diffs = Inr ?vr"
    by (simp add: varyingRangesFor_def)
  from compose_template [OF refl cmp] ur vr vls show ?thesis by blast
qed













text \<open>
  C10: when the variant extractor leaves some input string with fewer variants than there
  are varying ranges, the call still completes: the variant lists of all strings are
  built and \<open>mergeStrings\<close> returns the concatenation of the pieces of section 4.6. For
  each missing index the variant set holds \<open>undefined\<close>, the piece of the output at the
  place of that varying range is its bracket, and the bracket renders \<open>undefined\<close> as an
  empty entry after the sorted strings. This holds for every differ.
\<close>

theorem short_variant_list_rendered:
  assumes diffs: "diffs = map (diffSegmented D ref) (ref # s # rest)"
    and vr: "varyingRangesFor ref diffs = Inr varyingRanges"
    and d: "d \<in> set diffs"
    and parts: "varyingPartsOf varyingRanges d = Inr parts"
    and short: "length parts < length varyingRanges"
  shows "\<exists>unchangedRanges varyingLists.
           unchangedRangesFor ref diffs = Inr unchangedRanges \<and>
           varyingListsOf varyingRanges diffs = Inr varyingLists \<and>
           mergeStrings D (ref # s # rest)
             = Inr (concat (template ref unchangedRanges varyingRanges varyingLists)) \<and>
           (\<forall>i. length parts \<le> i \<and> i < length varyingRanges \<longrightarrow>
                None \<in> set (variantsAt varyingLists i) \<and>
                bracketPosition varyingRanges i
                  < length (template ref unchangedRanges varyingRanges varyingLists) \<and>
                template ref unchangedRanges varyingRanges varyingLists
                    ! bracketPosition varyingRanges i
                  = bracket (variantsAt varyingLists i) \<and>
                bracket (variantsAt varyingLists i)
                  = ''{'' @ joinStrings '', '' (sort (strings (variantsAt varyingLists i)) @ [''''])
                      @ ''}'')"
proof -
  from varyingRangesFor_Inr [OF vr] obtain common
    where cov: "\<forall>d \<in> set diffs. cursorAfter d = int (length ref)"
      and sub: "\<forall>d \<in> set diffs. common \<subseteq> fst (walkEdits d ({}, 0))"
      and vr_eq: "varyingRanges
                    = varyingRangesOf (unchangedRangesOf common (length ref)) (length ref)"
    by blast
  from short have ne: "varyingRanges \<noteq> []" by auto
  have chars_ne: "charsOf d' \<noteq> []" if d': "d' \<in> set diffs" for d'
  proof
    assume empty: "charsOf d' = []"
    then have "fst (walkEdits d' ({}, 0)) = {}" by (simp add: unchanged_of_chars)
    with sub d' have "common = {}" by auto
    with vr_eq ne have whole: "varyingRanges = [\<lparr>start = 0, stop = int (length ref)\<rparr>]"
      by (simp add: unchangedRangesOf_empty varyingRangesOf_empty split: if_splits)
    have "charsOf d \<noteq> []"
    proof
      assume "charsOf d = []"
      with whole parts show False by (simp add: varyingPartsOf_def)
    qed
    moreover have "\<forall>e \<in> set (charsOf d). 0 \<le> ptr e \<and> ptr e \<le> int (length ref)"
      using charsOf_bounds [of _ d] cov d by auto
    moreover have "extractParts (charsOf d) [\<lparr>start = 0, stop = int (length ref)\<rparr>] 0 [] = Inr parts"
      using parts whole by (simp add: varyingPartsOf_def)
    ultimately have "length parts = 1" by (rule extractParts_whole)
    with short whole show False by simp
  qed
  have "\<forall>d' \<in> set diffs. \<exists>ps. varyingPartsOf varyingRanges d' = Inr ps"
  proof
    fix d' assume "d' \<in> set diffs"
    then have "0 < length (charsOf d')" using chars_ne by simp
    from extractParts_ok [OF this] show "\<exists>ps. varyingPartsOf varyingRanges d' = Inr ps"
      by (simp add: varyingPartsOf_def)
  qed
  from varyingListsOf_ok [OF this] obtain vls
    where vls: "varyingListsOf varyingRanges diffs = Inr vls"
      and mem: "\<forall>d \<in> set diffs. \<forall>ps. varyingPartsOf varyingRanges d = Inr ps \<longrightarrow> ps \<in> set vls"
    by blast
  from mem d parts have pin: "parts \<in> set vls" by blast
  from mergeMany_ok [of ref D "ref # s # rest" varyingRanges vls] vr ne vls diffs
  obtain out where "mergeMany D ref (ref # s # rest) = Inr out" by auto
  then have out: "mergeStrings D (ref # s # rest) = Inr out" by (simp add: mergeStrings_def)
  from mergeStrings_template [OF out] diffs vr vls obtain ur
    where ur: "unchangedRangesFor ref diffs = Inr ur"
      and tpl: "out = concat (template ref ur varyingRanges vls)"
      and pos: "\<forall>i < length varyingRanges.
                  bracketPosition varyingRanges i < length (template ref ur varyingRanges vls) \<and>
                  template ref ur varyingRanges vls ! bracketPosition varyingRanges i
                    = bracket (variantsAt vls i)"
    by auto
  have undef: "None \<in> set (variantsAt vls i)" if "length parts \<le> i" for i
  proof -
    have "nthJS parts i \<in> set (variantsAt vls i)"
      using pin by (auto simp: variantsAt_def set_foldl_setAdd)
    with that show ?thesis by (simp add: nthJS_def)
  qed
  have dist: "distinct (variantsAt vls i)" for i
    by (simp add: variantsAt_def distinct_foldl_setAdd)
  have rendered: "bracket (variantsAt vls i)
      = ''{'' @ joinStrings '', '' (sort (strings (variantsAt vls i)) @ ['''']) @ ''}''"
    if "length parts \<le> i" for i
    using bracket_with_undefined [OF dist undef [OF that]] .
  from ur vls out tpl pos undef rendered show ?thesis by auto
qed

text \<open>
  The hypotheses hold for \<open>[''x a y b'', ''z a'']\<close>: the varying ranges are \<open>[0, 1)\<close> and
  \<open>[3, 7)\<close>, the second string has the variant \<open>''z''\<close> for the first and no entry from
  offset 3 on, and the third piece of the result is the bracket with the empty entry.
\<close>

theorem short_variant_list_rendered_witness:
  "varyingRangesFor ''x a y b'' (map (diffSegmented diffArrays ''x a y b'') [''x a y b'', ''z a''])
     = Inr [\<lparr>start = 0, stop = 1\<rparr>, \<lparr>start = 3, stop = 7\<rparr>] \<and>
   varyingPartsOf [\<lparr>start = 0, stop = 1\<rparr>, \<lparr>start = 3, stop = 7\<rparr>]
       (diffSegmented diffArrays ''x a y b'' ''z a'') = Inr [''z''] \<and>
   mergeStrings diffArrays [''x a y b'', ''z a''] = Inr ''{x, z} a{ y b, }'' \<and>
   (\<exists>unchangedRanges varyingLists.
       ''{x, z} a{ y b, }''
         = concat (template ''x a y b'' unchangedRanges
                     [\<lparr>start = 0, stop = 1\<rparr>, \<lparr>start = 3, stop = 7\<rparr>] varyingLists) \<and>
       template ''x a y b'' unchangedRanges
           [\<lparr>start = 0, stop = 1\<rparr>, \<lparr>start = 3, stop = 7\<rparr>] varyingLists ! 2
         = ''{ y b, }'')"
proof -
  let ?diffs = "map (diffSegmented diffArrays ''x a y b'') [''x a y b'', ''z a'']"
  let ?d = "diffSegmented diffArrays ''x a y b'' ''z a''"
  let ?vr = "[\<lparr>start = 0, stop = 1\<rparr>, \<lparr>start = 3, stop = 7\<rparr>]"
  have h1: "varyingRangesFor ''x a y b'' ?diffs = Inr ?vr" by code_simp
  have h2: "?d \<in> set ?diffs" by simp
  have h3: "varyingPartsOf ?vr ?d = Inr [''z'']" by code_simp
  have h4: "length [''z''] < length ?vr" by simp
  have vl: "varyingListsOf ?vr ?diffs = Inr [[''x'', '' y b''], [''z'']]" by code_simp
  have br: "bracket (variantsAt [[''x'', '' y b''], [''z'']] 1) = ''{ y b, }''" by code_simp
  have bp: "bracketPosition ?vr 1 = 2" by (simp add: bracketPosition_def)
  have m: "mergeStrings diffArrays [''x a y b'', ''z a''] = Inr ''{x, z} a{ y b, }''"
    by code_simp
  from short_variant_list_rendered [OF refl h1 h2 h3 h4]
  obtain ur vls where vls: "varyingListsOf ?vr ?diffs = Inr vls"
    and out: "mergeStrings diffArrays [''x a y b'', ''z a'']
                = Inr (concat (template ''x a y b'' ur ?vr vls))"
    and at: "\<forall>i. length [''z''] \<le> i \<and> i < length ?vr \<longrightarrow>
               template ''x a y b'' ur ?vr vls ! bracketPosition ?vr i
                 = bracket (variantsAt vls i)"
    by blast
  from vls vl have v: "vls = [[''x'', '' y b''], [''z'']]" by simp
  from at have "template ''x a y b'' ur ?vr vls ! bracketPosition ?vr 1
                 = bracket (variantsAt vls 1)" by simp
  with v br bp have p: "template ''x a y b'' ur ?vr vls ! 2 = ''{ y b, }''" by simp
  from out m have "''{x, z} a{ y b, }'' = concat (template ''x a y b'' ur ?vr vls)" by simp
  with p h1 h3 m show ?thesis by blast
qed

end
